theory Spec2Isabelle
  imports Complex_Main "HOL-Library.Word" "HOL-Library.Signed_Division"
begin

section \<open>Machine types\<close>

text \<open>
  The program is built for a 64-bit target: \<^verbatim>\<open>int\<close> and \<^verbatim>\<open>unsigned int\<close> have 32 bits,
  \<^verbatim>\<open>size_t\<close>, \<^verbatim>\<open>long long\<close> and the iterators' difference type have 64 bits. A word is
  a bit pattern; \<open>sint\<close> reads it as a signed value and \<open>unat\<close> as an unsigned one. The
  conversions between \<^verbatim>\<open>int\<close> and \<^verbatim>\<open>unsigned int\<close> keep the bit pattern.
\<close>

type_synonym c_int = "32 word"
type_synonym c_uint = "32 word"
type_synonym size_t = "64 word"
type_synonym long_long = "64 word"

text \<open>
  Everything that aborts the program is a value: the integer division by zero of line 47
  (undefined behaviour, a trap on the target) and the \<^verbatim>\<open>std::length_error\<close> that
  \<^verbatim>\<open>reserve\<close> throws for a request above \<^verbatim>\<open>max_size()\<close>. Failures of the platform
  (no memory, no thread) are not modelled.
\<close>

datatype error = DivisionByZero | LengthError

definition checked_div :: "'a::len word \<Rightarrow> 'a word \<Rightarrow> error + 'a word" where
  "checked_div a b = (if b = 0 then Inl DivisionByZero else Inr (a div b))"

definition and_then :: "error + 'a \<Rightarrow> ('a \<Rightarrow> error + 'b) \<Rightarrow> error + 'b" where
  "and_then r f = (case r of Inl e \<Rightarrow> Inl e | Inr v \<Rightarrow> f v)"

section \<open>The predicate and the library baseline\<close>

text \<open>\<^verbatim>\<open>bool is_even(int n) { return n % 2 == 0; }\<close>, with the remainder of C++, which
  truncates towards zero.\<close>

definition is_even :: "c_int \<Rightarrow> bool" where
  "is_even n = (sint n smod 2 = 0)"

text \<open>
  \<^verbatim>\<open>std::count_if(first, last, is_even)\<close>: one pass from left to right that increments a
  counter of the iterators' difference type. This is the sequential reference count.
\<close>

definition std_count_if :: "c_int list \<Rightarrow> long_long" where
  "std_count_if data = fold (\<lambda>x n. if is_even x then n + 1 else n) data 0"

section \<open>The parallel counting engine\<close>

text \<open>
  The state a call works on: the vector that \<^verbatim>\<open>data\<close> refers to, the values its futures
  deliver (in the order of \<^verbatim>\<open>push_back\<close>) and, as a log, the index range of every
  \<^verbatim>\<open>std::async\<close> call. The tasks only read the vector, so what a future delivers does not
  depend on when its task runs: the model runs each task where it is spawned.
\<close>

record engine_state =
  memory :: "c_int list"
  futures :: "long_long list"
  spawned :: "(size_t \<times> size_t) list"

text \<open>The task's loop, lines 61 to 67. The engine calls it with \<open>end_idx\<close> at most the
  vector's size, so every read \<open>mem ! unat j\<close> is in range.\<close>

function count_loop :: "size_t \<Rightarrow> size_t \<Rightarrow> long_long \<Rightarrow> c_int list \<Rightarrow> long_long \<times> c_int list" where
  "count_loop j end_idx local_count mem =
     (if j < end_idx
      then count_loop (j + 1) end_idx
             (if is_even (mem ! unat j) then local_count + 1 else local_count) mem
      else (local_count, mem))"
  by pat_completeness auto
termination
proof (relation "measure (\<lambda>(j, end_idx, _, _). unat end_idx - unat j)")
  show "wf (measure (\<lambda>(j, end_idx, _, _). unat end_idx - unat j))"
    by simp
next
  fix j end_idx :: size_t and local_count :: long_long and mem :: "c_int list"
  assume less: "j < end_idx"
  have "j + 1 \<noteq> 0"
  proof
    assume "j + 1 = 0"
    then have "j = - 1" by (simp add: eq_neg_iff_add_eq_0)
    with less show False by simp
  qed
  then have "unat (j + 1) = Suc (unat j)"
    by (simp add: unatSuc add.commute)
  moreover from less have "unat j < unat end_idx"
    by (simp add: word_less_nat_alt)
  ultimately show "((j + 1, end_idx,
        if is_even (mem ! unat j) then local_count + 1 else local_count, mem),
      j, end_idx, local_count, mem) \<in> measure (\<lambda>(j, end_idx, _, _). unat end_idx - unat j)"
    by simp
qed

declare count_loop.simps [simp del]

text \<open>The body of the loop of lines 52 to 69, for worker index \<open>i\<close>.\<close>

definition spawn_step :: "c_int \<Rightarrow> size_t \<Rightarrow> size_t \<Rightarrow> engine_state \<Rightarrow> engine_state" where
  "spawn_step i chunk_size data_size st =
     (let start_idx = scast i * chunk_size;
          end_idx = min (start_idx + chunk_size) data_size
      in if start_idx \<ge> end_idx then st
         else (let (local_count, mem) = count_loop start_idx end_idx 0 (memory st)
               in st\<lparr>memory := mem,
                     futures := futures st @ [local_count],
                     spawned := spawned st @ [(start_idx, end_idx)]\<rparr>))"

function spawn_loop :: "c_int \<Rightarrow> c_int \<Rightarrow> size_t \<Rightarrow> size_t \<Rightarrow> engine_state \<Rightarrow> engine_state" where
  "spawn_loop i num_threads chunk_size data_size st =
     (if i <s num_threads
      then spawn_loop (i + 1) num_threads chunk_size data_size
             (spawn_step i chunk_size data_size st)
      else st)"
  by pat_completeness auto
termination
proof (relation "measure (\<lambda>(i, num_threads, _, _, _). nat (sint num_threads - sint i))")
  show "wf (measure (\<lambda>(i, num_threads, _, _, _). nat (sint num_threads - sint i)))"
    by simp
next
  fix i num_threads :: c_int and chunk_size data_size :: size_t and st :: engine_state
  assume "i <s num_threads"
  then have less: "sint i < sint num_threads"
    by (simp add: word_sless_alt)
  have "sint num_threads < 2 ^ 31"
    using sint_lt [of num_threads] by simp
  with less have "sint (i + 1) = sint i + 1"
    using sint_ge [of i] by (simp add: sint_word_ariths signed_take_bit_int_eq_self)
  with less show "((i + 1, num_threads, chunk_size, data_size,
        spawn_step i chunk_size data_size st),
      i, num_threads, chunk_size, data_size, st)
      \<in> measure (\<lambda>(i, num_threads, _, _, _). nat (sint num_threads - sint i))"
    by simp
qed

declare spawn_loop.simps [simp del]

text \<open>
  The call, lines 40 to 76, with what it returns and the state it leaves. The operand
  \<^verbatim>\<open>num_threads\<close> of line 47 is converted to \<^verbatim>\<open>size_t\<close> (sign extension, \<open>scast\<close>), as
  is the argument of \<^verbatim>\<open>reserve\<close> in line 50: a negative \<^verbatim>\<open>num_threads\<close> asks for at least
  \<open>2 ^ 63\<close> elements, more than any \<^verbatim>\<open>max_size()\<close>.
\<close>

definition custom_parallel_count_if_exec :: "c_int list \<Rightarrow> c_int \<Rightarrow> error + long_long \<times> engine_state" where
  "custom_parallel_count_if_exec data num_threads =
     (if data = [] then Inr (0, \<lparr>memory = data, futures = [], spawned = []\<rparr>)
      else
        let data_size = (of_nat (length data) :: size_t) in
        and_then (checked_div (data_size + scast num_threads - 1) (scast num_threads))
          (\<lambda>chunk_size.
             if num_threads <s 0 then Inl LengthError
             else
               let st = spawn_loop 0 num_threads chunk_size data_size
                          \<lparr>memory = data, futures = [], spawned = []\<rparr>;
                   total_count = fold (\<lambda>f acc. acc + f) (futures st) 0
               in Inr (total_count, st)))"

definition custom_parallel_count_if :: "c_int list \<Rightarrow> c_int \<Rightarrow> error + long_long" where
  "custom_parallel_count_if data num_threads =
     map_sum id fst (custom_parallel_count_if_exec data num_threads)"

section \<open>The benchmark driver\<close>

text \<open>
  Phase A, lines 92 to 99, stores what \<^verbatim>\<open>std::count_if\<close> returns in \<^verbatim>\<open>int nonlocal\<close>: a
  conversion from the 64-bit difference type that keeps the low 32 bits. Phase B, lines 107
  to 127, stores it in \<^verbatim>\<open>long long count_result\<close>; the four execution policies return the
  same count.
\<close>

definition phase_a_nonlocal :: "c_int list \<Rightarrow> c_int" where
  "phase_a_nonlocal data = ucast (std_count_if data)"

definition phase_b_count_result :: "c_int list \<Rightarrow> long_long" where
  "phase_b_count_result large_data = std_count_if large_data"

text \<open>
  The candidate worker counts, lines 134 to 148, from \<^verbatim>\<open>unsigned int hardware_threads\<close>.
  Quotients, sums and products are those of \<^verbatim>\<open>unsigned int\<close> (modulo \<open>2 ^ 32\<close>), and
  \<^verbatim>\<open>push_back\<close> converts each to \<^verbatim>\<open>int\<close>, keeping its bits. \<^verbatim>\<open>std::sort\<close> orders the
  \<^verbatim>\<open>int\<close>s by their signed value, and \<^verbatim>\<open>std::unique\<close> with \<^verbatim>\<open>erase\<close> drops every
  element equal to its predecessor.
\<close>

definition std_sort :: "c_int list \<Rightarrow> c_int list" where
  "std_sort ks = sort_key sint ks"

definition std_unique :: "c_int list \<Rightarrow> c_int list" where
  "std_unique ks = remdups_adj ks"

definition k_values :: "c_uint \<Rightarrow> error + c_int list" where
  "k_values hardware_threads =
     and_then (if 1 < hardware_threads
               then and_then (checked_div hardware_threads 2) (\<lambda>half. Inr [half])
               else Inr [])
       (\<lambda>pushed_half.
          and_then (if 1 < hardware_threads then checked_div hardware_threads 2 else Inr 1)
            (\<lambda>extra.
               Inr (std_unique (std_sort
                 ([1] @ pushed_half @ [hardware_threads] @ [hardware_threads + extra]
                  @ [hardware_threads * 2]
                  @ (if 2 < hardware_threads then [hardware_threads * 3] else [])
                  @ [32])))))"

text \<open>
  The sweep of lines 153 to 168. An elapsed time is a finite \<^verbatim>\<open>double\<close>, and the sweep
  only compares them: the model takes them as real numbers. \<open>DBL_MAX\<close> is
  \<^verbatim>\<open>std::numeric_limits<double>::max()\<close>. Each worker count comes with the time that
  \<^verbatim>\<open>measure_time\<close> returns for its run (a skipped count is not run, and its time is not
  looked at).
\<close>

record sweep_state =
  best_time :: real
  best_k :: c_int
  last_count :: long_long

definition DBL_MAX :: real where
  "DBL_MAX = (2 ^ 53 - 1) * 2 ^ 971"

definition initial_sweep_state :: sweep_state where
  "initial_sweep_state = \<lparr>best_time = DBL_MAX, best_k = - 1, last_count = - 1\<rparr>"

definition record_run :: "c_int \<Rightarrow> real \<Rightarrow> long_long \<Rightarrow> sweep_state \<Rightarrow> sweep_state" where
  "record_run k duration c s =
     (let s' = s\<lparr>last_count := c\<rparr>
      in if duration < best_time s' then s'\<lparr>best_time := duration, best_k := k\<rparr> else s')"

fun phase_c_loop :: "c_int list \<Rightarrow> (c_int \<times> real) list \<Rightarrow> sweep_state \<Rightarrow> error + sweep_state" where
  "phase_c_loop large_data [] s = Inr s"
| "phase_c_loop large_data ((k, duration) # rest) s =
     (if k = 0 then phase_c_loop large_data rest s
      else and_then (custom_parallel_count_if large_data k)
             (\<lambda>c. phase_c_loop large_data rest (record_run k duration c s)))"

text \<open>
  Line 172, \<^verbatim>\<open>static_cast<double>(best_k) / hardware_threads\<close>: a division of \<^verbatim>\<open>double\<close>s,
  both operands converted exactly. By IEEE 754 a zero divisor gives an infinity, or a NaN
  for \<open>0 / 0\<close>, and no trap. Of a finite quotient the model keeps the exact value (the
  machine rounds it to the nearest \<^verbatim>\<open>double\<close>).
\<close>

datatype fp = Finite real | PlusInfinity | MinusInfinity | NaN

definition best_k_ratio :: "c_int \<Rightarrow> c_uint \<Rightarrow> fp" where
  "best_k_ratio k hardware_threads =
     (if hardware_threads \<noteq> 0
      then Finite (real_of_int (sint k) / real (unat hardware_threads))
      else if 0 <s k then PlusInfinity
      else if k <s 0 then MinusInfinity
      else NaN)"

text \<open>Phase C as a whole: the candidates, the sweep, the ratio. \<open>elapsed k\<close> is the time
  measured for the run with \<open>k\<close> workers.\<close>

definition phase_c :: "c_uint \<Rightarrow> c_int list \<Rightarrow> (c_int \<Rightarrow> real) \<Rightarrow> error + sweep_state \<times> fp" where
  "phase_c hardware_threads large_data elapsed =
     and_then (k_values hardware_threads)
       (\<lambda>ks. and_then (phase_c_loop large_data (map (\<lambda>k. (k, elapsed k)) ks) initial_sweep_state)
          (\<lambda>s. Inr (s, best_k_ratio (best_k s) hardware_threads)))"

section \<open>Index ranges over the natural numbers\<close>

text \<open>
  What the engine computes, written with natural numbers. \<open>count_between data a b\<close> is the
  number of even elements of \<open>data\<close> at the indices \<open>a\<close> up to, not including, \<open>b\<close>.
  \<open>chunk_ranges n c i k\<close> lists, for the worker indices \<open>j\<close> from \<open>i\<close> below \<open>k\<close> whose
  start \<open>j * c\<close> lies below \<open>n\<close>, the range from \<open>j * c\<close> to \<open>min (j * c + c) n\<close>.
\<close>

definition count_between :: "c_int list \<Rightarrow> nat \<Rightarrow> nat \<Rightarrow> nat" where
  "count_between data a b = length (filter is_even (take (b - a) (drop a data)))"

definition chunk_ranges :: "nat \<Rightarrow> nat \<Rightarrow> nat \<Rightarrow> nat \<Rightarrow> (nat \<times> nat) list" where
  "chunk_ranges n c i k = map (\<lambda>j. (j * c, min (j * c + c) n)) (filter (\<lambda>j. j * c < n) [i..<k])"

section \<open>Machine arithmetic within bounds\<close>

lemma unat_plus_one: "j < (e::'a::len word) \<Longrightarrow> unat (j + 1) = Suc (unat j)"
proof -
  assume less: "j < e"
  have "j + 1 \<noteq> 0"
  proof
    assume "j + 1 = 0"
    then have "j = - 1" by (simp add: eq_neg_iff_add_eq_0)
    with less show False by simp
  qed
  then show ?thesis by (simp add: unatSuc add.commute)
qed

lemma count_between_step:
  assumes "a < b" "b \<le> length mem"
  shows "count_between mem a b = (if is_even (mem ! a) then 1 else 0) + count_between mem (Suc a) b"
proof -
  from assms have "drop a mem = mem ! a # drop (Suc a) mem"
    by (simp add: Cons_nth_drop_Suc)
  moreover from assms have "b - a = Suc (b - Suc a)" by simp
  ultimately show ?thesis by (simp add: count_between_def)
qed

lemma count_loop_eq:
  "j \<le> e \<Longrightarrow> unat e \<le> length mem \<Longrightarrow>
   count_loop j e c mem = (c + of_nat (count_between mem (unat j) (unat e)), mem)"
proof (induction j e c mem rule: count_loop.induct)
  case (1 j e c mem)
  show ?case
  proof (cases "j < e")
    case True
    then have suc: "unat (j + 1) = Suc (unat j)" by (rule unat_plus_one)
    from True have lt: "unat j < unat e" by (simp add: word_less_nat_alt)
    then have le: "j + 1 \<le> e" using suc by (simp add: word_le_nat_alt)
    have "count_loop j e c mem =
        count_loop (j + 1) e (if is_even (mem ! unat j) then c + 1 else c) mem"
      using True by (subst count_loop.simps) simp
    also have "\<dots> = ((if is_even (mem ! unat j) then c + 1 else c)
          + of_nat (count_between mem (Suc (unat j)) (unat e)), mem)"
      using "1.IH" [OF True le "1.prems"(2)] suc by simp
    also have "\<dots> = (c + of_nat (count_between mem (unat j) (unat e)), mem)"
      using count_between_step [OF lt "1.prems"(2)] by simp
    finally show ?thesis .
  next
    case False
    with "1.prems" have "j = e" by simp
    then show ?thesis
      by (subst count_loop.simps) (simp add: count_between_def)
  qed
qed


lemma unat_scast_nonneg:
  assumes "0 \<le> sint (i :: c_int)"
  shows "unat (scast i :: size_t) = nat (sint i)"
proof -
  have "sint i < 2 ^ 31" using sint_lt [of i] by simp
  then have "sint i < 2 ^ 64" by (rule less_trans) simp
  with assms have tb: "take_bit 64 (sint i) = sint i"
    by (simp only: take_bit_int_eq_self)
  have "uint (scast i :: size_t) = take_bit 64 (sint i)"
    by (simp only: scast_eq uint_word_of_int_eq) simp
  with tb have "uint (scast i :: size_t) = sint i" by (simp only:)
  moreover have "unat (scast i :: size_t) = nat (uint (scast i :: size_t))"
    by (rule unat_eq_nat_uint)
  ultimately show ?thesis by (simp only:)
qed

lemma sint_plus_one:
  assumes "i <s (n :: c_int)"
  shows "sint (i + 1) = sint i + 1"
proof -
  from assms have less: "sint i < sint n" by (simp add: word_sless_alt)
  have "sint n < 2 ^ 31" using sint_lt [of n] by simp
  with less show ?thesis
    using sint_ge [of i] by (simp add: sint_word_ariths signed_take_bit_int_eq_self)
qed

lemma spawn_step_eq:
  assumes i: "0 \<le> sint i"
    and bound: "nat (sint i) * unat cs + unat cs < 2 ^ 64"
    and pos: "0 < unat cs"
    and len: "unat d \<le> length (memory st)"
  shows "spawn_step i cs d st =
    (if nat (sint i) * unat cs < unat d
     then st\<lparr>futures := futures st @
                [of_nat (count_between (memory st) (nat (sint i) * unat cs)
                   (min (nat (sint i) * unat cs + unat cs) (unat d)))],
             spawned := spawned st @
                [(of_nat (nat (sint i) * unat cs),
                  of_nat (min (nat (sint i) * unat cs + unat cs) (unat d)))]\<rparr>
     else st)"
proof -
  define a where "a = nat (sint i) * unat cs"
  define b where "b = min (a + unat cs) (unat d)"
  define start_idx where "start_idx = (scast i :: size_t) * cs"
  define end_idx where "end_idx = min (start_idx + cs) d"
  have "unat (scast i :: size_t) * unat cs < 2 ^ 64"
    using bound by (simp add: unat_scast_nonneg [OF i])
  then have start: "unat start_idx = a"
    unfolding start_idx_def a_def
    by (simp add: unat_mult_lem [THEN iffD1] unat_scast_nonneg [OF i])
  have "unat start_idx + unat cs < 2 ^ 64"
    using bound by (simp add: start a_def)
  then have "unat (start_idx + cs) = a + unat cs"
    by (simp add: unat_add_lem [THEN iffD1] start)
  then have "end": "unat end_idx = b"
    unfolding end_idx_def b_def by (simp add: min_def word_le_nat_alt)
  have skip: "end_idx \<le> start_idx \<longleftrightarrow> \<not> a < unat d"
    using pos by (auto simp: word_le_nat_alt start "end" b_def min_def)
  have step: "spawn_step i cs d st =
      (if end_idx \<le> start_idx then st
       else (let (local_count, mem) = count_loop start_idx end_idx 0 (memory st)
             in st\<lparr>memory := mem, futures := futures st @ [local_count],
                   spawned := spawned st @ [(start_idx, end_idx)]\<rparr>))"
    by (simp add: spawn_step_def start_idx_def end_idx_def Let_def)
  show ?thesis
  proof (cases "a < unat d")
    case False
    with skip step show ?thesis by (simp add: a_def)
  next
    case True
    with skip have le: "start_idx \<le> end_idx" by simp
    have "unat end_idx \<le> length (memory st)"
      using len by (simp add: "end" b_def)
    note count_loop_eq [OF le this, of 0]
    moreover have "start_idx = of_nat a" "end_idx = of_nat b"
      unfolding start [symmetric] "end" [symmetric] by simp_all
    ultimately show ?thesis
      using True skip step start "end" by (simp add: a_def b_def)
  qed
qed


lemma chunk_ranges_empty: "k \<le> i \<Longrightarrow> chunk_ranges n c i k = []"
  by (simp add: chunk_ranges_def)

lemma chunk_ranges_first:
  "i < k \<Longrightarrow> chunk_ranges n c i k =
     (if i * c < n then [(i * c, min (i * c + c) n)] else []) @ chunk_ranges n c (Suc i) k"
  by (simp add: chunk_ranges_def upt_conv_Cons)

lemma chunk_ranges_last:
  "chunk_ranges n c 0 (Suc k) =
     chunk_ranges n c 0 k @ (if k * c < n then [(k * c, min (k * c + c) n)] else [])"
  by (simp add: chunk_ranges_def)

lemma snd_count_loop: "snd (count_loop j e c mem) = mem"
proof (induction j e c mem rule: count_loop.induct)
  case (1 j e c mem)
  show ?case
  proof (cases "j < e")
    case True
    with "1.IH" show ?thesis by (subst count_loop.simps) simp
  next
    case False
    then show ?thesis by (subst count_loop.simps) simp
  qed
qed

lemma memory_spawn_step: "memory (spawn_step i cs d st) = memory st"
  by (simp add: spawn_step_def Let_def split_beta snd_count_loop)

lemma memory_spawn_loop: "memory (spawn_loop i n cs d st) = memory st"
proof (induction i n cs d st rule: spawn_loop.induct)
  case (1 i n cs d st)
  show ?case
  proof (cases "i <s n")
    case True
    with "1.IH" show ?thesis
      by (subst spawn_loop.simps) (simp add: memory_spawn_step)
  next
    case False
    then show ?thesis by (subst spawn_loop.simps) simp
  qed
qed

lemma spawn_loop_eq:
  assumes "0 \<le> sint i" "sint i \<le> sint n"
    and "nat (sint n) * unat cs < 2 ^ 64"
    and "0 < unat cs"
    and "unat d \<le> length (memory st)"
  shows "spawn_loop i n cs d st =
    st\<lparr>futures := futures st @
          map (\<lambda>(a, b). of_nat (count_between (memory st) a b))
            (chunk_ranges (unat d) (unat cs) (nat (sint i)) (nat (sint n))),
        spawned := spawned st @
          map (\<lambda>(a, b). (of_nat a, of_nat b))
            (chunk_ranges (unat d) (unat cs) (nat (sint i)) (nat (sint n)))\<rparr>"
  using assms
proof (induction i n cs d st rule: spawn_loop.induct)
  case (1 i n cs d st)
  show ?case
  proof (cases "i <s n")
    case False
    with "1.prems" have "nat (sint n) \<le> nat (sint i)"
      by (simp add: word_sless_alt)
    then show ?thesis
      using False by (subst spawn_loop.simps) (simp add: chunk_ranges_empty)
  next
    case True
    then have less: "sint i < sint n" by (simp add: word_sless_alt)
    have suc: "sint (i + 1) = sint i + 1" using True by (rule sint_plus_one)
    define I where "I = nat (sint i)"
    have I: "nat (sint (i + 1)) = Suc I" "I < nat (sint n)"
      using "1.prems"(1) less suc by (simp_all add: I_def)
    have "Suc I * unat cs \<le> nat (sint n) * unat cs"
      using I(2) by (intro mult_le_mono1) simp
    with "1.prems"(3) have bound: "I * unat cs + unat cs < 2 ^ 64" by simp
    note step = spawn_step_eq [OF "1.prems"(1) bound [unfolded I_def] "1.prems"(4,5)]
    have mem: "memory (spawn_step i cs d st) = memory st"
      by (simp add: step)
    have "spawn_loop i n cs d st = spawn_loop (i + 1) n cs d (spawn_step i cs d st)"
      using True by (subst spawn_loop.simps) simp
    also note "1.IH" [OF True, unfolded mem suc I [unfolded suc], OF _ _ "1.prems"(3,4,5)]
    finally show ?thesis
      using "1.prems"(1) less
      by (simp add: step chunk_ranges_first [OF I(2)] I_def [symmetric])
  qed
qed


lemma ceiling_div_covers:
  fixes n k :: nat
  assumes "0 < k"
  shows "n \<le> k * ((n + k - 1) div k)" and "k * ((n + k - 1) div k) \<le> n + k - 1"
proof -
  have eq: "k * ((n + k - 1) div k) + (n + k - 1) mod k = n + k - 1"
    by simp
  have "(n + k - 1) mod k < k" using assms by simp
  with eq show "n \<le> k * ((n + k - 1) div k)" by linarith
  from eq show "k * ((n + k - 1) div k) \<le> n + k - 1" by linarith
qed

lemma ceiling_div_least:
  fixes n k :: nat
  assumes "0 < k" "0 < n"
  shows "0 < (n + k - 1) div k" and "k * ((n + k - 1) div k - 1) < n"
proof -
  from assms have "k \<le> n + k - 1" by simp
  then show pos: "0 < (n + k - 1) div k"
    using assms(1) by (simp add: div_greater_zero_iff)
  have "k * ((n + k - 1) div k - 1) = k * ((n + k - 1) div k) - k"
    by (simp add: right_diff_distrib')
  also have "\<dots> \<le> n + k - 1 - k"
    using ceiling_div_covers(2) [OF assms(1), of n] by (rule diff_le_mono)
  also have "\<dots> < n" using assms by simp
  finally show "k * ((n + k - 1) div k - 1) < n" .
qed

lemma fold_add_of_nat:
  "fold (\<lambda>f acc. acc + f) (map (\<lambda>x. of_nat (g x)) xs) (acc :: long_long)
     = acc + of_nat (sum_list (map g xs))"
  by (induction xs arbitrary: acc) (simp_all add: add.assoc)

lemma slices_concat:
  "concat (map (\<lambda>(a, b). take (b - a) (drop a data)) (chunk_ranges (length data) c 0 k))
     = take (k * c) data"
proof (induction k)
  case 0
  show ?case by (simp add: chunk_ranges_def)
next
  case (Suc k)
  have "take (k * c + c) data = take (k * c) data @ take c (drop (k * c) data)"
    by (simp add: take_add)
  moreover have "take (min (k * c + c) (length data) - k * c) (drop (k * c) data)
      = take c (drop (k * c) data)"
    by (cases "k * c + c \<le> length data") (simp_all add: min_def)
  moreover have "\<not> k * c < length data \<Longrightarrow> take c (drop (k * c) data) = []"
    by simp
  ultimately show ?case
    using Suc.IH by (simp add: chunk_ranges_last add.commute)
qed

lemma sum_count_between:
  "sum_list (map (\<lambda>(a, b). count_between data a b) (chunk_ranges (length data) c 0 k))
     = length (filter is_even (take (k * c) data))"
proof -
  have "sum_list (map (\<lambda>(a, b). count_between data a b) rs)
      = length (filter is_even (concat (map (\<lambda>(a, b). take (b - a) (drop a data)) rs)))" for rs
    by (induction rs) (auto simp: count_between_def)
  then show ?thesis by (simp only: slices_concat)
qed


lemma unat_data_size:
  assumes "length (data :: c_int list) < 2 ^ 63"
  shows "unat (of_nat (length data) :: size_t) = length data"
proof -
  from assms have "length data < 2 ^ 64" by (rule less_trans) simp
  then show ?thesis by (simp add: unat_of_nat)
qed

lemma unat_num_threads:
  assumes "0 <s (K :: c_int)"
  shows "unat (scast K :: size_t) = nat (sint K)" and "0 < nat (sint K)"
    and "nat (sint K) < 2 ^ 31"
proof -
  from assms have pos: "0 < sint K" by (simp add: word_sless_alt)
  then show "unat (scast K :: size_t) = nat (sint K)"
    by (intro unat_scast_nonneg) simp
  from pos show "0 < nat (sint K)" by simp
  have "sint K < 2 ^ 31" using sint_lt [of K] by simp
  then show "nat (sint K) < 2 ^ 31" using pos by (simp add: nat_less_iff)
qed

lemma unat_chunk_size:
  assumes K: "0 <s (K :: c_int)" and len: "length (data :: c_int list) < 2 ^ 63"
    and ne: "data \<noteq> []"
  shows "unat ((of_nat (length data) + scast K - 1) div (scast K :: size_t))
     = (length data + nat (sint K) - 1) div nat (sint K)"
proof -
  define d :: size_t where "d = of_nat (length data)"
  define k :: size_t where "k = scast K"
  have d: "unat d = length data" unfolding d_def using len by (rule unat_data_size)
  have k: "unat k = nat (sint K)" unfolding k_def using K by (rule unat_num_threads)
  have "(2::nat) ^ 63 + 2 ^ 31 < 2 ^ 64" by simp
  with len unat_num_threads(3) [OF K] have "unat d + unat k < 2 ^ 64"
    unfolding d k by linarith
  then have sum: "unat (d + k) = length data + nat (sint K)"
    by (simp add: unat_add_lem [THEN iffD1] d k)
  with ne have "d + k \<noteq> 0" by (auto simp: unat_eq_0 [symmetric] simp del: unat_eq_0)
  then have "unat (d + k - 1) = length data + nat (sint K) - 1"
    by (simp add: unat_minus_one sum)
  then show ?thesis
    by (simp add: unat_div k d_def [symmetric] k_def [symmetric])
qed


lemma std_count_if_eq: "std_count_if data = of_nat (length (filter is_even data))"
proof -
  have "fold (\<lambda>x n. if is_even x then n + 1 else n) data (acc :: long_long)
      = acc + of_nat (length (filter is_even data))" for acc
    by (induction data arbitrary: acc) (simp_all add: add.assoc)
  then show ?thesis by (simp add: std_count_if_def)
qed

lemma exec_eq:
  assumes ne: "data \<noteq> []" and K: "0 <s K" and len: "length data < 2 ^ 63"
  shows "custom_parallel_count_if_exec data K =
    Inr (of_nat (length (filter is_even data)),
      \<lparr>memory = data,
       futures = map (\<lambda>(a, b). of_nat (count_between data a b))
         (chunk_ranges (length data) ((length data + nat (sint K) - 1) div nat (sint K)) 0
            (nat (sint K))),
       spawned = map (\<lambda>(a, b). (of_nat a, of_nat b))
         (chunk_ranges (length data) ((length data + nat (sint K) - 1) div nat (sint K)) 0
            (nat (sint K)))\<rparr>)"
proof -
  define n where "n = length data"
  define k where "k = nat (sint K)"
  define c where "c = (n + k - 1) div k"
  define d :: size_t where "d = of_nat (length data)"
  define cs :: size_t where "cs = (d + scast K - 1) div scast K"
  define st0 where "st0 = \<lparr>memory = data, futures = [], spawned = []\<rparr>"
  have k: "unat (scast K :: size_t) = k" "0 < k" "k < 2 ^ 31"
    using unat_num_threads [OF K] by (simp_all add: k_def)
  have n: "0 < n" "n < 2 ^ 63" using ne len by (simp_all add: n_def)
  have d: "unat d = n" unfolding d_def n_def using len by (rule unat_data_size)
  have cs: "unat cs = c"
    unfolding cs_def d_def c_def n_def k_def using K len ne by (rule unat_chunk_size)
  have c: "0 < c" "n \<le> k * c" "k * c \<le> n + k - 1"
    using ceiling_div_least(1) [OF k(2) n(1)] ceiling_div_covers [OF k(2), of n]
    by (simp_all add: c_def)
  have "(2::nat) ^ 63 + 2 ^ 31 < 2 ^ 64" by simp
  with c(3) n(2) k(3) have bound: "k * c < 2 ^ 64" by linarith
  have nonzero: "(scast K :: size_t) \<noteq> 0"
    using k by (simp add: unat_gt_0 [symmetric])
  have nonneg: "\<not> K <s 0" using K by (simp add: word_sless_alt)
  have sint0: "0 \<le> sint (0 :: c_int)" "sint (0 :: c_int) \<le> sint K" "nat (sint (0 :: c_int)) = 0"
    using K by (simp_all add: word_sless_alt)
  have loop: "spawn_loop 0 K cs d st0 =
      \<lparr>memory = data,
       futures = map (\<lambda>(a, b). of_nat (count_between data a b)) (chunk_ranges n c 0 k),
       spawned = map (\<lambda>(a, b). (of_nat a, of_nat b)) (chunk_ranges n c 0 k)\<rparr>"
    using spawn_loop_eq [OF sint0(1,2), of cs d st0] bound c(1)
    by (simp add: cs d sint0(3) k_def [symmetric] st0_def n_def)
  have "sum_list (map (\<lambda>(a, b). count_between data a b) (chunk_ranges n c 0 k))
      = length (filter is_even data)"
    using sum_count_between [of data c k] c(2) by (simp add: n_def)
  then have total: "fold (\<lambda>f acc. acc + f)
        (map (\<lambda>(a, b). of_nat (count_between data a b)) (chunk_ranges n c 0 k)) (0 :: long_long)
      = of_nat (length (filter is_even data))"
    using fold_add_of_nat [of "\<lambda>(a, b). count_between data a b" "chunk_ranges n c 0 k" 0]
    by (simp add: case_prod_unfold)
  have "custom_parallel_count_if_exec data K =
      Inr (fold (\<lambda>f acc. acc + f) (futures (spawn_loop 0 K cs d st0)) 0,
           spawn_loop 0 K cs d st0)"
    using ne nonzero nonneg
    by (simp add: custom_parallel_count_if_exec_def and_then_def checked_div_def Let_def
        cs_def d_def st0_def)
  then show ?thesis
    unfolding loop by (simp add: total) (simp add: n_def k_def c_def)
qed


lemma chunk_ranges_mem:
  "(a, b) \<in> set (chunk_ranges n c i k) \<longleftrightarrow>
     (\<exists>j. i \<le> j \<and> j < k \<and> j * c < n \<and> a = j * c \<and> b = min (j * c + c) n)"
  by (auto simp: chunk_ranges_def)

lemma chunk_ranges_nonempty:
  assumes "0 < c" "(a, b) \<in> set (chunk_ranges n c i k)"
  shows "a < b" and "b \<le> n"
  using assms by (auto simp: chunk_ranges_mem)

lemma chunk_ranges_union:
  assumes c: "0 < c" and cover: "n \<le> k * c"
  shows "(\<Union>(a, b) \<in> set (chunk_ranges n c 0 k). {a..<b}) = {0..<n}"
proof (intro set_eqI iffI)
  fix x
  assume "x \<in> (\<Union>(a, b) \<in> set (chunk_ranges n c 0 k). {a..<b})"
  then obtain a b where "(a, b) \<in> set (chunk_ranges n c 0 k)" "a \<le> x" "x < b"
    by auto
  with chunk_ranges_nonempty(2) [OF c this(1)] show "x \<in> {0..<n}" by simp
next
  fix x
  assume "x \<in> {0..<n}"
  then have x: "x < n" by simp
  define j where "j = x div c"
  have low: "j * c \<le> x" by (simp add: j_def)
  have high: "x < j * c + c"
    using c by (simp add: j_def) (metis add.commute div_mult_mod_eq add_less_cancel_left
      mod_less_divisor mult.commute)
  from low x cover have "j * c < k * c" by linarith
  then have "j < k" by simp
  with low x have "(j * c, min (j * c + c) n) \<in> set (chunk_ranges n c 0 k)"
    by (auto simp: chunk_ranges_mem)
  moreover have "x \<in> {j * c..<min (j * c + c) n}" using low high x by simp
  ultimately show "x \<in> (\<Union>(a, b) \<in> set (chunk_ranges n c 0 k). {a..<b})"
    by blast
qed

lemma chunk_ranges_ordered:
  "sorted_wrt (\<lambda>r r'. snd r \<le> fst r') (chunk_ranges n c i k)"
proof -
  have "sorted_wrt (<) (filter (\<lambda>j. j * c < n) [i..<k])"
    by (intro sorted_wrt_filter) simp
  then have "sorted_wrt (\<lambda>j j'. min (j * c + c) n \<le> j' * c) (filter (\<lambda>j. j * c < n) [i..<k])"
  proof (rule sorted_wrt_mono_rel [rotated])
    fix j j' :: nat
    assume "j < j'"
    then have "Suc j * c \<le> j' * c" by (intro mult_le_mono1) simp
    then show "min (j * c + c) n \<le> j' * c" by (simp add: add.commute)
  qed
  then show ?thesis by (simp add: chunk_ranges_def sorted_wrt_map)
qed

lemma chunk_ranges_disjoint:
  assumes "x < length (chunk_ranges n c i k)" "y < length (chunk_ranges n c i k)" "x \<noteq> y"
  shows "{fst (chunk_ranges n c i k ! x)..<snd (chunk_ranges n c i k ! x)}
       \<inter> {fst (chunk_ranges n c i k ! y)..<snd (chunk_ranges n c i k ! y)} = {}"
proof -
  have *: "snd (chunk_ranges n c i k ! p) \<le> fst (chunk_ranges n c i k ! q)"
    if "p < q" "q < length (chunk_ranges n c i k)" for p q
    using chunk_ranges_ordered [of n c i k] that by (simp add: sorted_wrt_iff_nth_less)
  from assms(3) consider "x < y" | "y < x" by linarith
  then show ?thesis
  proof cases
    case 1
    with * [OF 1 assms(2)] show ?thesis by auto
  next
    case 2
    with * [OF 2 assms(1)] show ?thesis by auto
  qed
qed

lemma unat_ranges:
  assumes "0 < c" "n < 2 ^ 63"
  shows "map (\<lambda>(s, e). (unat s, unat e))
           (map (\<lambda>(a, b). (of_nat a :: size_t, of_nat b :: size_t)) (chunk_ranges n c i k))
         = chunk_ranges n c i k"
proof -
  have "unat (of_nat a :: size_t) = a \<and> unat (of_nat b :: size_t) = b"
    if "(a, b) \<in> set (chunk_ranges n c i k)" for a b
  proof -
    from chunk_ranges_nonempty [OF assms(1) that] assms(2) have "a < 2 ^ 63" "b < 2 ^ 63"
      by simp_all
    then have "a < 2 ^ 64" "b < 2 ^ 64" by (simp_all add: less_trans)
    then show ?thesis by (simp add: unat_of_nat)
  qed
  then have "map ((\<lambda>(s, e). (unat s, unat e)) \<circ> (\<lambda>(a, b). (of_nat a :: size_t, of_nat b :: size_t)))
      (chunk_ranges n c i k) = chunk_ranges n c i k"
    by (intro map_idI) auto
  then show ?thesis by simp
qed

lemma sint_count:
  assumes "m < (2::nat) ^ 63"
  shows "sint (of_nat m :: long_long) = int m"
proof -
  have "int m < 2 ^ 63" using assms by simp
  moreover have "- (2 ^ 63) \<le> int m" by (rule order_trans [of _ 0]) simp_all
  ultimately have "signed_take_bit 63 (int m) = int m"
    by (simp only: signed_take_bit_int_eq_self)
  moreover have "sint (of_nat m :: long_long) = signed_take_bit (64 - Suc 0) (int m)"
    by (simp only: signed_of_nat len_of_numeral_defs) simp
  ultimately show ?thesis by simp
qed


lemma exec_empty:
  "custom_parallel_count_if_exec [] K = Inr (0, \<lparr>memory = [], futures = [], spawned = []\<rparr>)"
  by (simp add: custom_parallel_count_if_exec_def)

lemma count_if_value:
  assumes "0 <s K" "length data < 2 ^ 63"
  shows "custom_parallel_count_if data K = Inr (of_nat (length (filter is_even data)))"
proof (cases "data = []")
  case True
  then show ?thesis by (simp add: custom_parallel_count_if_def exec_empty)
next
  case False
  then show ?thesis
    using exec_eq [OF False assms] by (simp add: custom_parallel_count_if_def)
qed

section \<open>The engine's result\<close>

text \<open>
  A \<^verbatim>\<open>std::vector<int>\<close> of the 64-bit target holds at most \<^verbatim>\<open>max_size()\<close> elements, fewer
  than \<open>2 ^ 62\<close>, so every dataset satisfies the bound \<open>length data < 2 ^ 63\<close> of the theorems
  below. The bound keeps the index arithmetic of lines 47, 53 and 54 from wrapping around.
\<close>

text \<open>
  Claim C1. For every dataset and every worker count \<open>K \<ge> 1\<close>,
  \<^verbatim>\<open>custom_parallel_count_if\<close> returns the number of elements that satisfy \<^verbatim>\<open>is_even\<close>: it
  returns what the sequential reference \<open>std_count_if\<close> returns, which read as a signed
  value is the number of even elements. So two worker counts \<open>K1, K2 \<ge> 1\<close> give the same
  result.
\<close>

theorem parallel_count_exact:
  assumes "0 <s K1" and "0 <s K2" and "length data < 2 ^ 63"
  shows "custom_parallel_count_if data K1 = Inr (std_count_if data)
    \<and> sint (std_count_if data) = int (length (filter is_even data))
    \<and> custom_parallel_count_if data K2 = custom_parallel_count_if data K1"
proof -
  have "length (filter is_even data) \<le> length data" by simp
  with assms(3) have "length (filter is_even data) < 2 ^ 63" by (rule le_less_trans [rotated])
  then have "sint (std_count_if data) = int (length (filter is_even data))"
    by (simp only: std_count_if_eq sint_count)
  then show ?thesis
    using count_if_value [OF assms(1,3)] count_if_value [OF assms(2,3)]
    by (simp only: std_count_if_eq)
qed

text \<open>The dataset of the spec's scenario with 3 and with 8 workers: the count is 5.\<close>

theorem parallel_count_exact_witness:
  "(0 :: c_int) <s 3 \<and> (0 :: c_int) <s 8
    \<and> length [2, 3, 4, 5, 6, 7, 8, 9, 10, 11 :: c_int] < 2 ^ 63
    \<and> custom_parallel_count_if [2, 3, 4, 5, 6, 7, 8, 9, 10, 11] 3 = Inr 5
    \<and> custom_parallel_count_if [2, 3, 4, 5, 6, 7, 8, 9, 10, 11] 8 = Inr 5"
proof -
  have h: "(0 :: c_int) <s 3" "(0 :: c_int) <s 8"
    "length [2, 3, 4, 5, 6, 7, 8, 9, 10, 11 :: c_int] < 2 ^ 63"
    by (simp_all add: word_sless_alt)
  have "std_count_if [2, 3, 4, 5, 6, 7, 8, 9, 10, 11] = 5"
    by (simp add: std_count_if_def is_even_def)
  with parallel_count_exact [OF h] h show ?thesis by (simp only:)
qed

section \<open>The chunks\<close>

lemma ceiling_div_eq:
  fixes n k :: nat
  assumes k: "0 < k"
  shows "int ((n + k - 1) div k) = \<lceil>real n / real k\<rceil>"
proof (cases "n = 0")
  case True
  with k show ?thesis by simp
next
  case False
  then have n: "0 < n" by simp
  define c where "c = (n + k - 1) div k"
  have "n \<le> k * c" using ceiling_div_covers(1) [OF k, of n] by (simp add: c_def)
  then have "real n \<le> real c * real k"
    by (metis mult.commute of_nat_le_iff of_nat_mult)
  then have upper: "real n / real k \<le> of_int (int c)"
    using k by (simp add: pos_divide_le_eq)
  have c: "0 < c" using ceiling_div_least(1) [OF k n] by (simp add: c_def)
  have "k * (c - 1) < n" using ceiling_div_least(2) [OF k n] by (simp add: c_def)
  then have "real (k * (c - 1)) < real n" by (simp only: of_nat_less_iff)
  then have "(real c - 1) * real k < real n"
    using c by (simp add: of_nat_diff mult.commute)
  then have lower: "of_int (int c) - 1 < real n / real k"
    using k by (simp add: pos_less_divide_eq)
  from lower upper have "\<lceil>real n / real k\<rceil> = int c" by (rule ceiling_unique)
  then show ?thesis by (simp add: c_def)
qed

lemma spawned_futures:
  assumes "0 < c" "n < 2 ^ 63"
  shows "map (\<lambda>(a, b). of_nat (count_between data a b) :: long_long) (chunk_ranges n c i k)
    = map (\<lambda>(s, e). of_nat (count_between data (unat s) (unat e)))
        (map (\<lambda>(a, b). (of_nat a :: size_t, of_nat b :: size_t)) (chunk_ranges n c i k))"
proof -
  have "map (\<lambda>(s, e). of_nat (count_between data (unat s) (unat e)) :: long_long)
        (map (\<lambda>(a, b). (of_nat a :: size_t, of_nat b :: size_t)) (chunk_ranges n c i k))
      = map (\<lambda>(a, b). of_nat (count_between data a b))
          (map (\<lambda>(s, e). (unat s, unat e))
             (map (\<lambda>(a, b). (of_nat a :: size_t, of_nat b :: size_t)) (chunk_ranges n c i k)))"
    by (simp add: case_prod_unfold comp_def)
  then show ?thesis by (simp only: unat_ranges [OF assms])
qed

lemma exec_chunks:
  assumes ne: "data \<noteq> []" and K: "0 <s K" and len: "length data < 2 ^ 63"
  defines "k \<equiv> nat (sint K)"
  defines "c \<equiv> (length data + k - 1) div k"
  shows "\<exists>res st. custom_parallel_count_if_exec data K = Inr (res, st)
      \<and> memory st = data
      \<and> map (\<lambda>(s, e). (unat s, unat e)) (spawned st) = chunk_ranges (length data) c 0 k
      \<and> futures st = map (\<lambda>(s, e). of_nat (count_between data (unat s) (unat e))) (spawned st)"
    and "0 < k" and "0 < c" and "length data \<le> k * c"
proof -
  show k: "0 < k" using unat_num_threads(2) [OF K] by (simp add: k_def)
  from ne have n: "0 < length data" by simp
  show c: "0 < c" using ceiling_div_least(1) [OF k n] by (simp add: c_def)
  show "length data \<le> k * c" using ceiling_div_covers(1) [OF k] by (simp add: c_def)
  show "\<exists>res st. custom_parallel_count_if_exec data K = Inr (res, st)
      \<and> memory st = data
      \<and> map (\<lambda>(s, e). (unat s, unat e)) (spawned st) = chunk_ranges (length data) c 0 k
      \<and> futures st = map (\<lambda>(s, e). of_nat (count_between data (unat s) (unat e))) (spawned st)"
  proof -
    have "custom_parallel_count_if_exec data K =
      Inr (of_nat (length (filter is_even data)),
        \<lparr>memory = data,
         futures = map (\<lambda>(a, b). of_nat (count_between data a b))
           (chunk_ranges (length data) c 0 k),
         spawned = map (\<lambda>(a, b). (of_nat a, of_nat b)) (chunk_ranges (length data) c 0 k)\<rparr>)"
      using exec_eq [OF ne K len] by (simp only: k_def c_def)
    then show ?thesis
      using unat_ranges [OF c len, of 0 k] spawned_futures [OF c len, of data 0 k]
      by simp
  qed
qed


lemma scenario_exec:
  "custom_parallel_count_if_exec [2, 3, 4, 5, 6, 7, 8, 9, 10, 11] 3 =
     Inr (5, \<lparr>memory = [2, 3, 4, 5, 6, 7, 8, 9, 10, 11], futures = [2, 2, 1],
              spawned = [(0, 4), (4, 8), (8, 10)]\<rparr>)"
proof -
  have h: "[2, 3, 4, 5, 6, 7, 8, 9, 10, 11 :: c_int] \<noteq> []" "(0 :: c_int) <s 3"
    "length [2, 3, 4, 5, 6, 7, 8, 9, 10, 11 :: c_int] < 2 ^ 63"
    by (simp_all add: word_sless_alt)
  have r: "chunk_ranges 10 4 0 3 = [(0, 4), (4, 8), (8, 10)]"
    by code_simp
  have c: "count_between [2, 3, 4, 5, 6, 7, 8, 9, 10, 11] 0 4 = 2"
    "count_between [2, 3, 4, 5, 6, 7, 8, 9, 10, 11] 4 8 = 2"
    "count_between [2, 3, 4, 5, 6, 7, 8, 9, 10, 11] 8 10 = 1"
    by (simp_all add: count_between_def is_even_def)
  have e: "length (filter is_even [2, 3, 4, 5, 6, 7, 8, 9, 10, 11]) = 5"
    by (simp add: is_even_def)
  have n: "length [2, 3, 4, 5, 6, 7, 8, 9, 10, 11 :: c_int] = 10"
    "nat (sint (3 :: c_int)) = 3" "(10 + 3 - 1) div 3 = (4 :: nat)"
    by simp_all
  show ?thesis
    using exec_eq [OF h, unfolded n r e] by (simp add: c)
qed

text \<open>
  Claim C2. For every non-empty dataset and every worker count \<open>K \<ge> 1\<close>, the chunk size is
  the ceiling of the dataset's size over \<open>K\<close>, the tasks the call spawns have the ranges
  from \<open>i * chunk_size\<close> to \<open>min (i * chunk_size + chunk_size) size\<close> of the worker indices
  \<open>i\<close> whose range is not empty, in this order, and these ranges partition the indices below
  the size: their union is the whole index range, two of them never overlap, and none is
  empty. Each future delivers the number of even elements of its range. For the dataset
  \<open>[2, \<dots>, 11]\<close> and 3 workers the ranges are \<open>[0, 4)\<close>, \<open>[4, 8)\<close> and \<open>[8, 10)\<close>, the
  partial counts 2, 2 and 1, and the total 5.
\<close>

theorem chunks_partition:
  assumes "data \<noteq> []" and "0 <s K" and "length data < 2 ^ 63"
  shows "(\<exists>res st.
        custom_parallel_count_if_exec data K = Inr (res, st)
      \<and> map (\<lambda>(s, e). (unat s, unat e)) (spawned st)
          = chunk_ranges (length data)
              ((length data + nat (sint K) - 1) div nat (sint K)) 0 (nat (sint K))
      \<and> (\<Union>(s, e) \<in> set (spawned st). {unat s..<unat e}) = {0..<length data}
      \<and> (\<forall>x<length (spawned st). \<forall>y<length (spawned st). x \<noteq> y \<longrightarrow>
            {unat (fst (spawned st ! x))..<unat (snd (spawned st ! x))}
            \<inter> {unat (fst (spawned st ! y))..<unat (snd (spawned st ! y))} = {})
      \<and> (\<forall>(s, e) \<in> set (spawned st). s < e)
      \<and> futures st = map (\<lambda>(s, e). of_nat (count_between data (unat s) (unat e))) (spawned st))
    \<and> int ((length data + nat (sint K) - 1) div nat (sint K))
        = \<lceil>real (length data) / real (nat (sint K))\<rceil>
    \<and> custom_parallel_count_if_exec [2, 3, 4, 5, 6, 7, 8, 9, 10, 11] 3 =
        Inr (5, \<lparr>memory = [2, 3, 4, 5, 6, 7, 8, 9, 10, 11], futures = [2, 2, 1],
                 spawned = [(0, 4), (4, 8), (8, 10)]\<rparr>)"
proof -
  define k where "k = nat (sint K)"
  define c where "c = (length data + k - 1) div k"
  define rs where "rs = chunk_ranges (length data) c 0 k"
  note facts = exec_chunks [OF assms, folded k_def, folded c_def]
  from facts(1) obtain res st where
    run: "custom_parallel_count_if_exec data K = Inr (res, st)"
    and ranges: "map (\<lambda>(s, e). (unat s, unat e)) (spawned st) = rs"
    and fut: "futures st = map (\<lambda>(s, e). of_nat (count_between data (unat s) (unat e))) (spawned st)"
    unfolding rs_def by blast
  from ranges have len: "length (spawned st) = length rs" by (metis length_map)
  have nth: "rs ! x = (unat (fst (spawned st ! x)), unat (snd (spawned st ! x)))"
    if "x < length (spawned st)" for x
    using that by (simp add: ranges [symmetric] case_prod_unfold)
  have "(\<Union>(s, e) \<in> set (spawned st). {unat s..<unat e}) = (\<Union>(a, b) \<in> set rs. {a..<b})"
    by (simp add: ranges [symmetric] case_prod_unfold)
  also have "\<dots> = {0..<length data}"
    unfolding rs_def using facts(3,4) by (rule chunk_ranges_union)
  finally have union: "(\<Union>(s, e) \<in> set (spawned st). {unat s..<unat e}) = {0..<length data}" .
  have disjoint: "{unat (fst (spawned st ! x))..<unat (snd (spawned st ! x))}
      \<inter> {unat (fst (spawned st ! y))..<unat (snd (spawned st ! y))} = {}"
    if "x < length (spawned st)" "y < length (spawned st)" "x \<noteq> y" for x y
    using chunk_ranges_disjoint [of x "length data" c 0 k y] that
    by (simp add: rs_def [symmetric] len nth)
  have nonempty: "s < e" if "(s, e) \<in> set (spawned st)" for s e
  proof -
    from that have "(unat s, unat e) \<in> set rs"
      unfolding ranges [symmetric] by force
    then show ?thesis
      using chunk_ranges_nonempty(1) [OF facts(3), of "unat s" "unat e" "length data" 0 k]
      by (simp add: rs_def word_less_nat_alt)
  qed
  have ceil: "int c = \<lceil>real (length data) / real k\<rceil>"
    unfolding c_def using facts(2) by (rule ceiling_div_eq)
  from run ranges union disjoint nonempty fut ceil scenario_exec show ?thesis
    unfolding rs_def c_def k_def by blast
qed

text \<open>The theorem at the scenario's dataset with 3 workers.\<close>

theorem chunks_partition_witness:
  "[2, 3, 4, 5, 6, 7, 8, 9, 10, 11 :: c_int] \<noteq> [] \<and> (0 :: c_int) <s 3
    \<and> length [2, 3, 4, 5, 6, 7, 8, 9, 10, 11 :: c_int] < 2 ^ 63
    \<and> (\<exists>res st.
          custom_parallel_count_if_exec [2, 3, 4, 5, 6, 7, 8, 9, 10, 11] 3 = Inr (res, st)
        \<and> map (\<lambda>(s, e). (unat s, unat e)) (spawned st) = [(0, 4), (4, 8), (8, 10)]
        \<and> (\<Union>(s, e) \<in> set (spawned st). {unat s..<unat e}) = {0..<10}
        \<and> futures st = [2, 2, 1] \<and> res = 5)"
proof -
  have h: "[2, 3, 4, 5, 6, 7, 8, 9, 10, 11 :: c_int] \<noteq> []" "(0 :: c_int) <s 3"
    "length [2, 3, 4, 5, 6, 7, 8, 9, 10, 11 :: c_int] < 2 ^ 63"
    by (simp_all add: word_sless_alt)
  have r: "chunk_ranges 10 4 0 3 = [(0, 4), (4, 8), (8, 10)]"
    by code_simp
  have n: "length [2, 3, 4, 5, 6, 7, 8, 9, 10, 11 :: c_int] = 10"
    "nat (sint (3 :: c_int)) = 3" "(10 + 3 - 1) div 3 = (4 :: nat)"
    by simp_all
  note t = chunks_partition [OF h, unfolded n r]
  from t have "\<exists>res st.
      custom_parallel_count_if_exec [2, 3, 4, 5, 6, 7, 8, 9, 10, 11] 3 = Inr (res, st)
      \<and> map (\<lambda>(s, e). (unat s, unat e)) (spawned st) = [(0, 4), (4, 8), (8, 10)]
      \<and> (\<Union>(s, e) \<in> set (spawned st). {unat s..<unat e}) = {0..<10}"
    by (elim conjE exE) (intro exI conjI; assumption)
  then obtain res st where
    run: "custom_parallel_count_if_exec [2, 3, 4, 5, 6, 7, 8, 9, 10, 11] 3 = Inr (res, st)"
    and ranges: "map (\<lambda>(s, e). (unat s, unat e)) (spawned st) = [(0, 4), (4, 8), (8, 10)]"
    and union: "(\<Union>(s, e) \<in> set (spawned st). {unat s..<unat e}) = {0..<10}"
    by (elim conjE exE)
  from t have "custom_parallel_count_if_exec [2, 3, 4, 5, 6, 7, 8, 9, 10, 11] 3 =
      Inr (5, \<lparr>memory = [2, 3, 4, 5, 6, 7, 8, 9, 10, 11], futures = [2, 2, 1],
               spawned = [(0, 4), (4, 8), (8, 10)]\<rparr>)"
    by (elim conjE)
  with run have "res = 5" "futures st = [2, 2, 1]" by auto
  with run ranges union have "\<exists>res st.
      custom_parallel_count_if_exec [2, 3, 4, 5, 6, 7, 8, 9, 10, 11] 3 = Inr (res, st)
      \<and> map (\<lambda>(s, e). (unat s, unat e)) (spawned st) = [(0, 4), (4, 8), (8, 10)]
      \<and> (\<Union>(s, e) \<in> set (spawned st). {unat s..<unat e}) = {0..<10}
      \<and> futures st = [2, 2, 1] \<and> res = 5"
    by (intro exI conjI)
  with h show ?thesis by (intro conjI)
qed

section \<open>The empty dataset\<close>

text \<open>
  Claim C3. For every worker count \<open>K \<ge> 1\<close>, \<^verbatim>\<open>custom_parallel_count_if\<close> applied to an
  empty dataset returns 0 at once: no task is spawned and no future is created.
\<close>

theorem empty_dataset_returns_zero:
  assumes "0 <s K"
  shows "custom_parallel_count_if [] K = Inr 0
    \<and> custom_parallel_count_if_exec [] K = Inr (0, \<lparr>memory = [], futures = [], spawned = []\<rparr>)"
  by (simp add: custom_parallel_count_if_def custom_parallel_count_if_exec_def)

text \<open>The spec's scenario: the empty dataset with 4 workers.\<close>

theorem empty_dataset_returns_zero_witness:
  "(0 :: c_int) <s 4 \<and> custom_parallel_count_if [] 4 = Inr 0
    \<and> (\<exists>st. custom_parallel_count_if_exec [] 4 = Inr (0, st) \<and> length (spawned st) = 0)"
proof -
  have h: "(0 :: c_int) <s 4" by (simp add: word_sless_alt)
  from empty_dataset_returns_zero [OF h] h show ?thesis by simp
qed

text \<open>
  Claim C10. For an empty dataset \<^verbatim>\<open>custom_parallel_count_if\<close> returns 0 for every value of
  \<^verbatim>\<open>num_threads\<close>, zero and the negative ones included: the return of line 42 comes before
  the division of line 47, so there is no division by zero, and no task is spawned.
\<close>

theorem empty_dataset_any_worker_count:
  "custom_parallel_count_if_exec [] K = Inr (0, \<lparr>memory = [], futures = [], spawned = []\<rparr>)
    \<and> custom_parallel_count_if [] K = Inr 0
    \<and> custom_parallel_count_if [] K \<noteq> Inl DivisionByZero
    \<and> custom_parallel_count_if [] 0 = Inr 0
    \<and> custom_parallel_count_if [] (- 1) = Inr 0"
  by (simp add: custom_parallel_count_if_def exec_empty)

section \<open>The dataset is left as it was\<close>

lemma exec_memory:
  assumes "custom_parallel_count_if_exec data K = Inr (res, st)"
  shows "memory st = data"
  using assms
  by (auto simp: custom_parallel_count_if_exec_def and_then_def checked_div_def Let_def
      memory_spawn_loop split: if_splits)

text \<open>
  Claim C8. For every dataset and every worker count \<open>K \<ge> 1\<close> the call returns, and the
  vector that \<^verbatim>\<open>data\<close> refers to is the same after the call as before it. (Whatever the
  worker count, a call that returns leaves the vector unchanged.) The vector is the only
  state the call shares with its caller: the futures are local to the call.
\<close>

theorem dataset_not_mutated:
  assumes "0 <s K" and "length data < 2 ^ 63"
  shows "(\<exists>res st. custom_parallel_count_if_exec data K = Inr (res, st) \<and> memory st = data)
    \<and> (\<forall>K' res st. custom_parallel_count_if_exec data K' = Inr (res, st) \<longrightarrow> memory st = data)"
proof
  show "\<exists>res st. custom_parallel_count_if_exec data K = Inr (res, st) \<and> memory st = data"
  proof (cases "data = []")
    case True
    then show ?thesis by (simp add: exec_empty)
  next
    case False
    with exec_eq [OF False assms] show ?thesis by simp
  qed
  show "\<forall>K' res st. custom_parallel_count_if_exec data K' = Inr (res, st) \<longrightarrow> memory st = data"
    by (intro allI impI) (rule exec_memory)
qed

text \<open>The scenario's dataset with 3 workers.\<close>

theorem dataset_not_mutated_witness:
  "(0 :: c_int) <s 3 \<and> length [2, 3, 4, 5, 6, 7, 8, 9, 10, 11 :: c_int] < 2 ^ 63
    \<and> (\<exists>res st. custom_parallel_count_if_exec [2, 3, 4, 5, 6, 7, 8, 9, 10, 11] 3 = Inr (res, st)
          \<and> memory st = [2, 3, 4, 5, 6, 7, 8, 9, 10, 11])"
proof -
  have h: "(0 :: c_int) <s 3" "length [2, 3, 4, 5, 6, 7, 8, 9, 10, 11 :: c_int] < 2 ^ 63"
    by (simp_all add: word_sless_alt)
  from h dataset_not_mutated [OF h, THEN conjunct1] show ?thesis by (intro conjI)
qed

section \<open>The candidate worker counts\<close>

lemma strictly_sorted_remdups_adj:
  fixes xs :: "'a::linorder list"
  shows "sorted xs \<Longrightarrow> sorted_wrt (<) (remdups_adj xs)"
proof (induction xs rule: remdups_adj.induct)
  case (3 x y xs)
  show ?case
  proof (cases "x = y")
    case True
    with 3 show ?thesis by simp
  next
    case False
    from "3.prems" False have xy: "x < y" by auto
    have "x < z" if "z \<in> set (y # xs)" for z
    proof -
      from "3.prems" that have "y \<le> z" by auto
      with xy show ?thesis by (rule less_le_trans)
    qed
    with 3 False show ?thesis by (simp del: set_simps)
  qed
qed simp_all

lemma std_unique_sort:
  "sorted_wrt (\<lambda>a b. sint a < sint b) (std_unique (std_sort ks))"
  "set (std_unique (std_sort ks)) = set ks"
  "std_unique (std_unique (std_sort ks)) = std_unique (std_sort ks)"
proof -
  have inj: "inj (sint :: c_int \<Rightarrow> int)"
    by (rule injI) (rule signed_word_eqI)
  have "sorted (map sint (sort_key sint ks))" by simp
  then have "sorted_wrt (<) (remdups_adj (map sint (sort_key sint ks)))"
    by (rule strictly_sorted_remdups_adj)
  then have strict: "sorted_wrt (<) (map sint (remdups_adj (sort_key sint ks)))"
    by (simp only: remdups_adj_map_injective [OF inj])
  then show "sorted_wrt (\<lambda>a b. sint a < sint b) (std_unique (std_sort ks))"
    by (simp add: std_unique_def std_sort_def sorted_wrt_map)
  show "set (std_unique (std_sort ks)) = set ks"
    by (simp add: std_unique_def std_sort_def)
  from strict have "distinct (map sint (remdups_adj (sort_key sint ks)))"
    by (simp only: strict_sorted_iff)
  then have "distinct (remdups_adj (sort_key sint ks))"
    by (simp add: distinct_map)
  then show "std_unique (std_unique (std_sort ks)) = std_unique (std_sort ks)"
    by (simp add: std_unique_def std_sort_def remdups_adj_distinct)
qed

lemma k_values_eq:
  "k_values H = Inr (std_unique (std_sort
     ([1] @ (if 1 < H then [H div 2] else []) @ [H] @ [H + (if 1 < H then H div 2 else 1)]
      @ [H * 2] @ (if 2 < H then [H * 3] else []) @ [32])))"
  by (simp add: k_values_def and_then_def checked_div_def)

lemma sint_small:
  assumes "unat (w :: c_int) < 2 ^ 31"
  shows "sint w = int (unat w)"
proof -
  have "int (unat w) < int (2 ^ 31)" using assms by (simp only: of_nat_less_iff)
  then have "uint w < 2 ^ 31" by simp
  moreover have "- (2 ^ 31) \<le> uint w" by (rule order_trans [of _ 0]) simp_all
  ultimately have "signed_take_bit 31 (uint w) = uint w"
    by (simp only: signed_take_bit_int_eq_self)
  moreover have "sint w = signed_take_bit (32 - Suc 0) (uint w)"
    by (subst sint_uint) simp
  moreover have "32 - Suc 0 = (31 :: nat)" by simp
  ultimately have "sint w = uint w" by (simp only:)
  then show ?thesis by (simp only: uint_nat)
qed

lemma small_candidates:
  fixes H :: c_uint
  assumes "3 * unat H < 2 ^ 31"
  shows "sint H = int (unat H)"
    and "sint (H div 2) = int (unat H div 2)"
    and "sint (H + H div 2) = int (unat H + unat H div 2)"
    and "sint (H + 1) = int (unat H + 1)"
    and "sint (H * 2) = int (2 * unat H)"
    and "sint (H * 3) = int (3 * unat H)"
proof -
  have two32: "(2::nat) ^ 31 < 2 ^ 32" by simp
  have le: "unat H div 2 \<le> unat H" by (rule div_le_dividend)
  have half: "unat (H div 2) = unat H div 2" by (simp add: unat_div)
  have "unat H + unat H div 2 < 2 ^ 32" using assms two32 le by linarith
  then have sum: "unat (H + H div 2) = unat H + unat H div 2"
    using unat_add_lem [of H "H div 2"] by (simp add: half)
  have "(3 :: nat) < 2 ^ 31" by simp
  then have "unat H + 1 < 2 ^ 32" using assms two32 by linarith
  then have suc: "unat (H + 1) = unat H + 1"
    using unat_add_lem [of H 1] by simp
  have "unat H * 2 < 2 ^ 32" using assms two32 by linarith
  then have dbl: "unat (H * 2) = 2 * unat H"
    using unat_mult_lem [of H 2] by simp
  have "unat H * 3 < 2 ^ 32" using assms two32 by linarith
  then have tpl: "unat (H * 3) = 3 * unat H"
    using unat_mult_lem [of H 3] by simp
  show "sint H = int (unat H)" using assms by (intro sint_small) linarith
  have "unat (H div 2) < 2 ^ 31" using assms le unfolding half by linarith
  then show "sint (H div 2) = int (unat H div 2)"
    using sint_small [of "H div 2"] by (simp only: half)
  have "unat (H + H div 2) < 2 ^ 31" using assms le unfolding sum by linarith
  then show "sint (H + H div 2) = int (unat H + unat H div 2)"
    using sint_small [of "H + H div 2"] by (simp only: sum)
  have "(3 :: nat) < 2 ^ 31" by simp
  then have "unat (H + 1) < 2 ^ 31" using assms unfolding suc by linarith
  then show "sint (H + 1) = int (unat H + 1)"
    using sint_small [of "H + 1"] by (simp only: suc)
  have "unat (H * 2) < 2 ^ 31" using assms unfolding dbl by linarith
  then show "sint (H * 2) = int (2 * unat H)"
    using sint_small [of "H * 2"] by (simp only: dbl)
  have "unat (H * 3) < 2 ^ 31" using assms unfolding tpl by linarith
  then show "sint (H * 3) = int (3 * unat H)"
    using sint_small [of "H * 3"] by (simp only: tpl)
qed


text \<open>
  Claim C5. For every hardware concurrency \<open>H\<close> the candidate list is built without error,
  is strictly ascending as a list of \<^verbatim>\<open>int\<close>s, so has no duplicates and is left as it is by
  another deduplication, and its elements are exactly 1, \<open>H / 2\<close> (only if \<open>H > 1\<close>), \<open>H\<close>,
  \<open>H + H / 2\<close> (if \<open>H > 1\<close>, otherwise \<open>H + 1\<close>), \<open>2 H\<close>, \<open>3 H\<close> (only if \<open>H > 2\<close>) and 32, in
  the arithmetic of \<^verbatim>\<open>unsigned int\<close>. As long as \<open>3 H\<close> is below \<open>2 ^ 31\<close> nothing wraps
  around, and the \<^verbatim>\<open>int\<close> values are these numbers themselves.
\<close>

theorem k_values_sorted_unique:
  "\<exists>ks. k_values H = Inr ks
     \<and> sorted_wrt (\<lambda>a b. sint a < sint b) ks
     \<and> distinct ks
     \<and> std_unique ks = ks
     \<and> set ks = {1, H, H + (if 1 < H then H div 2 else 1), H * 2, 32}
          \<union> (if 1 < H then {H div 2} else {}) \<union> (if 2 < H then {H * 3} else {})
     \<and> (3 * unat H < 2 ^ 31 \<longrightarrow>
          sint ` set ks = int ` ({1, unat H, unat H + (if 1 < unat H then unat H div 2 else 1),
              2 * unat H, 32}
            \<union> (if 1 < unat H then {unat H div 2} else {})
            \<union> (if 2 < unat H then {3 * unat H} else {})))"
proof -
  define pushed where "pushed = [1] @ (if 1 < H then [H div 2] else []) @ [H]
    @ [H + (if 1 < H then H div 2 else 1)] @ [H * 2] @ (if 2 < H then [H * 3] else []) @ [32]"
  define ks where "ks = std_unique (std_sort pushed)"
  have run: "k_values H = Inr ks"
    by (simp only: k_values_eq ks_def pushed_def)
  have sorted: "sorted_wrt (\<lambda>a b. sint a < sint b) ks"
    unfolding ks_def by (rule std_unique_sort)
  then have "sorted_wrt (<) (map sint ks)" by (simp add: sorted_wrt_map)
  then have "distinct (map sint ks)" by (simp only: strict_sorted_iff)
  then have distinct: "distinct ks" by (simp add: distinct_map)
  have unique: "std_unique ks = ks"
    unfolding ks_def by (rule std_unique_sort)
  have elems: "set ks = {1, H, H + (if 1 < H then H div 2 else 1), H * 2, 32}
      \<union> (if 1 < H then {H div 2} else {}) \<union> (if 2 < H then {H * 3} else {})"
    unfolding ks_def std_unique_sort(2) by (auto simp: pushed_def)
  have vals: "sint ` set ks = int ` ({1, unat H, unat H + (if 1 < unat H then unat H div 2 else 1),
        2 * unat H, 32}
      \<union> (if 1 < unat H then {unat H div 2} else {})
      \<union> (if 2 < unat H then {3 * unat H} else {}))"
    if small: "3 * unat H < 2 ^ 31"
  proof -
    have c: "1 < H \<longleftrightarrow> 1 < unat H" "2 < H \<longleftrightarrow> 2 < unat H"
      by (simp_all add: word_less_nat_alt)
    note s = small_candidates [OF small]
    have cst: "sint (1 :: c_int) = 1" "sint (32 :: c_int) = 32" by simp_all
    show ?thesis
      unfolding elems c
      by (cases "1 < unat H"; cases "2 < unat H") (simp_all add: s cst insert_commute)
  qed
  from run sorted distinct unique elems vals show ?thesis by blast
qed

text \<open>Eight hardware threads: the candidates are 1, 4, 8, 12, 16, 24 and 32.\<close>

theorem k_values_sorted_unique_witness:
  "3 * unat (8 :: c_uint) < 2 ^ 31
    \<and> (\<exists>ks. k_values 8 = Inr ks \<and> sorted_wrt (\<lambda>a b. sint a < sint b) ks
          \<and> sint ` set ks = {1, 4, 8, 12, 16, 24, 32})"
proof -
  have h: "3 * unat (8 :: c_uint) < 2 ^ 31" by simp
  from k_values_sorted_unique [of 8] obtain ks where
    ks: "k_values 8 = Inr ks" "sorted_wrt (\<lambda>a b. sint a < sint b) ks"
    and "3 * unat (8 :: c_uint) < 2 ^ 31 \<longrightarrow>
          sint ` set ks = int ` ({1, unat (8 :: c_uint),
              unat (8 :: c_uint) + (if 1 < unat (8 :: c_uint) then unat (8 :: c_uint) div 2 else 1),
              2 * unat (8 :: c_uint), 32}
            \<union> (if 1 < unat (8 :: c_uint) then {unat (8 :: c_uint) div 2} else {})
            \<union> (if 2 < unat (8 :: c_uint) then {3 * unat (8 :: c_uint)} else {}))"
    by (elim exE conjE)
  with h have "sint ` set ks = {1, 4, 8, 12, 16, 24, 32}" by auto
  with ks h show ?thesis by (intro conjI exI)
qed

section \<open>The best worker count\<close>

lemma phase_c_loop_positive:
  assumes "length data < 2 ^ 63" and "\<forall>(k, t) \<in> set rs. 0 <s k"
  shows "phase_c_loop data rs s =
    Inr (fold (\<lambda>(k, t). record_run k t (std_count_if data)) rs s)"
  using assms(2)
proof (induction rs arbitrary: s)
  case Nil
  show ?case by simp
next
  case (Cons r rs)
  obtain k t where r: "r = (k, t)" by (cases r)
  with Cons.prems have k: "0 <s k" by simp
  then have "k \<noteq> 0" by auto
  moreover have "custom_parallel_count_if data k = Inr (std_count_if data)"
    using count_if_value [OF k assms(1)] by (simp only: std_count_if_eq)
  moreover have "\<forall>(k, t) \<in> set rs. 0 <s k" using Cons.prems by simp
  ultimately show ?case
    using Cons.IH by (simp add: r and_then_def)
qed

lemma fold_record_run:
  fixes rs :: "(c_int \<times> real) list"
  defines "final \<equiv> \<lambda>c rs s. fold (\<lambda>(k, t). record_run k t c) rs s"
  shows "(\<forall>(k, t) \<in> set rs. best_time s \<le> t) \<and> best_time (final c rs s) = best_time s
           \<and> best_k (final c rs s) = best_k s
       \<or> (\<exists>pre k t post. rs = pre @ (k, t) # post \<and> t < best_time s
             \<and> best_k (final c rs s) = k \<and> best_time (final c rs s) = t
             \<and> (\<forall>(k', t') \<in> set pre. t < t') \<and> (\<forall>(k', t') \<in> set post. t \<le> t'))"
proof (induction rs arbitrary: s)
  case Nil
  show ?case by (simp add: final_def)
next
  case (Cons r rs)
  obtain k t where r: "r = (k, t)" by (cases r)
  define s1 where "s1 = record_run k t c s"
  have fin: "best_k (final c (r # rs) s) = best_k (final c rs s1)"
    "best_time (final c (r # rs) s) = best_time (final c rs s1)"
    by (simp_all add: final_def s1_def r)
  have s1: "best_time s1 = (if t < best_time s then t else best_time s)"
    "best_k s1 = (if t < best_time s then k else best_k s)"
    by (simp_all add: s1_def record_run_def)
  from Cons.IH [of s1] show ?case
  proof (elim disjE conjE exE)
    assume rest: "\<forall>(k, t) \<in> set rs. best_time s1 \<le> t"
      and same: "best_time (final c rs s1) = best_time s1" "best_k (final c rs s1) = best_k s1"
    show ?thesis
    proof (cases "t < best_time s")
      case True
      have "r # rs = [] @ (k, t) # rs" by (simp add: r)
      moreover have "best_k (final c (r # rs) s) = k" "best_time (final c (r # rs) s) = t"
        using True fin same s1 by simp_all
      moreover have "\<forall>(k', t') \<in> set []. t < t'" by simp
      moreover have "\<forall>(k', t') \<in> set rs. t \<le> t'" using rest True s1 by simp
      ultimately show ?thesis using True by blast
    next
      case False
      have "\<forall>(k, t) \<in> set (r # rs). best_time s \<le> t" using rest False s1 by (simp add: r)
      moreover have "best_time (final c (r # rs) s) = best_time s"
        "best_k (final c (r # rs) s) = best_k s"
        using False fin same s1 by simp_all
      ultimately show ?thesis by blast
    qed
  next
    fix pre k' t' post
    assume split: "rs = pre @ (k', t') # post" and less: "t' < best_time s1"
      and sel: "best_k (final c rs s1) = k'" "best_time (final c rs s1) = t'"
      and before: "\<forall>(k'', t'') \<in> set pre. t' < t''"
      and after: "\<forall>(k'', t'') \<in> set post. t' \<le> t''"
    have "r # rs = ((k, t) # pre) @ (k', t') # post" using split by (simp add: r)
    moreover have "t' < best_time s" using less s1 by (simp split: if_splits)
    moreover have "best_k (final c (r # rs) s) = k'" "best_time (final c (r # rs) s) = t'"
      using fin sel by simp_all
    moreover have "t' < t" using less s1 by (simp split: if_splits)
    then have "\<forall>(k'', t'') \<in> set ((k, t) # pre). t' < t''" using before by simp
    ultimately show ?thesis using after by blast
  qed
qed


lemma scenario_sweep:
  assumes "length data < 2 ^ 63"
  shows "\<exists>s. phase_c_loop data [(1, 2), (4, 1 / 2), (8, 1 / 2)] initial_sweep_state = Inr s
    \<and> best_k s = 4 \<and> best_time s = 1 / 2"
proof -
  have "\<forall>(k, t) \<in> set [(1 :: c_int, 2 :: real), (4, 1 / 2), (8, 1 / 2)]. 0 <s k"
    by (simp add: word_sless_alt)
  note run = phase_c_loop_positive [OF assms this, of initial_sweep_state]
  have "(2 :: real) < DBL_MAX" by (simp add: DBL_MAX_def)
  then show ?thesis
    unfolding run by (simp add: record_run_def initial_sweep_state_def)
qed

text \<open>
  Claim C6. The sweep keeps the running minimum of the elapsed times under strict
  less-than: over records with worker counts \<open>K \<ge> 1\<close> and finite times, the reported best K
  and best time are those of the record that is strictly faster than every earlier record and
  at least as fast as every later one, which is the first record with the least time, so
  on an exact tie the K seen first wins. For the records \<open>(1, 2.0)\<close>, \<open>(4, 0.5)\<close>, \<open>(8, 0.5)\<close>
  the best K is 4.
\<close>

theorem best_k_selection:
  assumes "rs \<noteq> []" and "\<forall>(k, t) \<in> set rs. 0 <s k \<and> t < DBL_MAX"
    and "length data < 2 ^ 63"
  shows "(\<exists>s pre k t post.
        phase_c_loop data rs initial_sweep_state = Inr s
      \<and> rs = pre @ (k, t) # post \<and> best_k s = k \<and> best_time s = t
      \<and> (\<forall>(k', t') \<in> set pre. t < t') \<and> (\<forall>(k', t') \<in> set post. t \<le> t'))
    \<and> (\<exists>s. phase_c_loop data [(1, 2), (4, 1 / 2), (8, 1 / 2)] initial_sweep_state = Inr s
          \<and> best_k s = 4 \<and> best_time s = 1 / 2)"
proof
  define c where "c = std_count_if data"
  define s where "s = fold (\<lambda>(k, t). record_run k t c) rs initial_sweep_state"
  from assms(2) have pos: "\<forall>(k, t) \<in> set rs. 0 <s k" by auto
  have run: "phase_c_loop data rs initial_sweep_state = Inr s"
    unfolding s_def c_def using assms(3) pos by (rule phase_c_loop_positive)
  obtain k0 t0 where first: "(k0, t0) \<in> set rs"
    using assms(1) by (cases rs) auto
  with assms(2) have "t0 < best_time initial_sweep_state"
    by (auto simp: initial_sweep_state_def)
  with first have "\<not> (\<forall>(k, t) \<in> set rs. best_time initial_sweep_state \<le> t)"
    by force
  with fold_record_run [of rs initial_sweep_state c]
  obtain pre k t post where "rs = pre @ (k, t) # post" "best_k s = k" "best_time s = t"
    "\<forall>(k', t') \<in> set pre. t < t'" "\<forall>(k', t') \<in> set post. t \<le> t'"
    unfolding s_def by blast
  with run show "\<exists>s pre k t post.
        phase_c_loop data rs initial_sweep_state = Inr s
      \<and> rs = pre @ (k, t) # post \<and> best_k s = k \<and> best_time s = t
      \<and> (\<forall>(k', t') \<in> set pre. t < t') \<and> (\<forall>(k', t') \<in> set post. t \<le> t')"
    by blast
  show "\<exists>s. phase_c_loop data [(1, 2), (4, 1 / 2), (8, 1 / 2)] initial_sweep_state = Inr s
      \<and> best_k s = 4 \<and> best_time s = 1 / 2"
    using assms(3) by (rule scenario_sweep)
qed

text \<open>The spec's scenario, run on the dataset \<open>[2, \<dots>, 11]\<close>.\<close>

theorem best_k_selection_witness:
  "[(1 :: c_int, 2 :: real), (4, 1 / 2), (8, 1 / 2)] \<noteq> []
    \<and> length [2, 3, 4, 5, 6, 7, 8, 9, 10, 11 :: c_int] < 2 ^ 63
    \<and> (\<exists>s pre post.
          phase_c_loop [2, 3, 4, 5, 6, 7, 8, 9, 10, 11] [(1, 2), (4, 1 / 2), (8, 1 / 2)]
              initial_sweep_state = Inr s
        \<and> [(1 :: c_int, 2 :: real), (4, 1 / 2), (8, 1 / 2)] = pre @ (4, 1 / 2) # post
        \<and> best_k s = 4 \<and> best_time s = 1 / 2
        \<and> (\<forall>(k', t') \<in> set pre. 1 / 2 < t') \<and> (\<forall>(k', t') \<in> set post. 1 / 2 \<le> t'))"
proof -
  have h: "[(1 :: c_int, 2 :: real), (4, 1 / 2), (8, 1 / 2)] \<noteq> []"
    "\<forall>(k, t) \<in> set [(1 :: c_int, 2 :: real), (4, 1 / 2), (8, 1 / 2)]. 0 <s k \<and> t < DBL_MAX"
    "length [2, 3, 4, 5, 6, 7, 8, 9, 10, 11 :: c_int] < 2 ^ 63"
    by (simp_all add: word_sless_alt DBL_MAX_def)
  from best_k_selection [OF h, THEN conjunct1] obtain s pre k t post where
    run: "phase_c_loop [2, 3, 4, 5, 6, 7, 8, 9, 10, 11] [(1, 2), (4, 1 / 2), (8, 1 / 2)]
        initial_sweep_state = Inr s"
    and split: "[(1 :: c_int, 2 :: real), (4, 1 / 2), (8, 1 / 2)] = pre @ (k, t) # post"
    and sel: "best_k s = k" "best_time s = t"
    and before: "\<forall>(k', t') \<in> set pre. t < t'"
    and after: "\<forall>(k', t') \<in> set post. t \<le> t'"
    by (elim exE conjE)
  from best_k_selection [OF h, THEN conjunct2] run have "best_k s = 4" "best_time s = 1 / 2"
    by auto
  with sel have "k = 4" "t = 1 / 2" by simp_all
  with run split sel before after have "\<exists>s pre post.
          phase_c_loop [2, 3, 4, 5, 6, 7, 8, 9, 10, 11] [(1, 2), (4, 1 / 2), (8, 1 / 2)]
              initial_sweep_state = Inr s
        \<and> [(1 :: c_int, 2 :: real), (4, 1 / 2), (8, 1 / 2)] = pre @ (4, 1 / 2) # post
        \<and> best_k s = 4 \<and> best_time s = 1 / 2
        \<and> (\<forall>(k', t') \<in> set pre. 1 / 2 < t') \<and> (\<forall>(k', t') \<in> set post. 1 / 2 \<le> t')"
    by (intro exI [of _ s] exI [of _ pre] exI [of _ post] conjI) (simp_all only:)
  with h(1,3) show ?thesis by (intro conjI)
qed

section \<open>Invalid worker counts\<close>

lemma scast_zero_iff: "(scast (K :: c_int) :: size_t) = 0 \<longleftrightarrow> K = 0"
proof
  assume "(scast K :: size_t) = 0"
  then have "sint (scast K :: size_t) = 0" by simp
  moreover have "sint (scast K :: size_t) = sint K"
    by (rule sint_up_scast) (simp add: is_up)
  ultimately have "sint K = 0" by simp
  then show "K = 0" by (simp only: signed_eq_0_iff)
next
  assume "K = 0"
  then show "(scast K :: size_t) = 0" by simp
qed

lemma division_by_zero_iff:
  "custom_parallel_count_if data K = Inl DivisionByZero \<longleftrightarrow> data \<noteq> [] \<and> K = 0"
  by (auto simp: custom_parallel_count_if_def custom_parallel_count_if_exec_def and_then_def
      checked_div_def Let_def scast_zero_iff)

lemma phase_c_loop_no_division_by_zero:
  "phase_c_loop data rs s \<noteq> Inl DivisionByZero"
proof (induction rs arbitrary: s)
  case Nil
  show ?case by simp
next
  case (Cons r rs)
  obtain k t where r: "r = (k, t)" by (cases r)
  show ?case
  proof (cases "k = 0")
    case True
    with Cons.IH show ?thesis by (simp add: r)
  next
    case False
    then have "custom_parallel_count_if data k \<noteq> Inl DivisionByZero"
      by (simp add: division_by_zero_iff)
    with False Cons.IH show ?thesis
      by (cases "custom_parallel_count_if data k") (simp_all add: r and_then_def)
  qed
qed

text \<open>
  Claim C4 says that the implementation guards against a worker count below 1 before the
  chunk-size division, so that a call with worker count 0 never divides by zero. The engine
  has no such guard: called with 0 workers on a dataset of one element it divides by zero.
\<close>

theorem worker_count_zero_counterexample:
  "custom_parallel_count_if [2] 0 = Inl DivisionByZero"
  by (simp add: custom_parallel_count_if_def custom_parallel_count_if_exec_def and_then_def
      checked_div_def)

lemma negative_worker_count:
  assumes "data \<noteq> []" and "K <s 0"
  shows "custom_parallel_count_if data K = Inl LengthError"
proof -
  from assms(2) have "K \<noteq> 0" by auto
  then have "(scast K :: size_t) \<noteq> 0" by (simp add: scast_zero_iff)
  with assms show ?thesis
    by (simp add: custom_parallel_count_if_def custom_parallel_count_if_exec_def and_then_def
        checked_div_def)
qed

text \<open>
  Claim C4, amended. The engine divides by zero exactly when it is called with worker
  count 0 on a non-empty dataset, and a negative worker count on a non-empty dataset ends in
  the length error of \<^verbatim>\<open>reserve\<close>. The guard is the caller's: the sweep of the driver skips
  a candidate equal to 0 before it calls the engine, so neither the sweep nor phase C as a
  whole ever divides by zero, whatever the hardware concurrency, the dataset and the times.
\<close>

theorem worker_count_zero_guard:
  "(custom_parallel_count_if data K = Inl DivisionByZero \<longleftrightarrow> data \<noteq> [] \<and> K = 0)
    \<and> (data \<noteq> [] \<and> K <s 0 \<longrightarrow> custom_parallel_count_if data K = Inl LengthError)
    \<and> phase_c_loop data ((0, t) # rs) s = phase_c_loop data rs s
    \<and> phase_c_loop data rs s \<noteq> Inl DivisionByZero
    \<and> phase_c H data elapsed \<noteq> Inl DivisionByZero"
proof -
  obtain ks where ks: "k_values H = Inr ks" by (simp add: k_values_eq)
  define rs' where "rs' = map (\<lambda>k. (k, elapsed k)) ks"
  have "phase_c_loop data rs' initial_sweep_state \<noteq> Inl DivisionByZero"
    by (rule phase_c_loop_no_division_by_zero)
  then have "phase_c H data elapsed \<noteq> Inl DivisionByZero"
    by (cases "phase_c_loop data rs' initial_sweep_state")
      (simp_all add: phase_c_def ks and_then_def rs'_def)
  then show ?thesis
    by (simp add: division_by_zero_iff phase_c_loop_no_division_by_zero negative_worker_count)
qed

text \<open>A dataset of one element, worker count \<open>- 1\<close>, and a sweep that starts with 0.\<close>

theorem worker_count_zero_guard_witness:
  "[2 :: c_int] \<noteq> [] \<and> (- 1 :: c_int) <s 0
    \<and> custom_parallel_count_if [2] (- 1) = Inl LengthError
    \<and> phase_c_loop [2] [(0, 1), (1, 1)] initial_sweep_state = phase_c_loop [2] [(1, 1)] initial_sweep_state
    \<and> phase_c 0 [2] (\<lambda>k. 1) \<noteq> Inl DivisionByZero"
proof -
  have h: "[2 :: c_int] \<noteq> [] \<and> (- 1 :: c_int) <s 0" by (simp add: word_sless_alt)
  note t = worker_count_zero_guard [of "[2]" "- 1" 1 "[(1, 1)]" initial_sweep_state 0 "\<lambda>k. 1"]
  from t h have "custom_parallel_count_if [2] (- 1) = Inl LengthError"
    by (elim conjE impE) (intro conjI; assumption)
  with t h show ?thesis by (elim conjE) (intro conjI; assumption)
qed

section \<open>Hardware concurrency zero\<close>

lemma k_values_zero: "k_values 0 = Inr [0, 1, 32]"
  by code_simp

text \<open>
  Claim C7 says that every division that uses \<open>H\<close> guards against \<open>H = 0\<close> by treating \<open>H\<close>
  as 1. The ratio of line 172 does not: for best K 1 and \<open>H = 0\<close> it is an infinity, not the
  ratio 1 that \<open>H = 1\<close> gives.
\<close>

theorem hardware_concurrency_zero_counterexample:
  "best_k_ratio 1 0 = PlusInfinity \<and> best_k_ratio 1 1 = Finite 1
    \<and> best_k_ratio 1 0 \<noteq> best_k_ratio 1 1"
  by (simp add: best_k_ratio_def word_sless_alt)

text \<open>
  Claim C7, amended. When the hardware concurrency is 0 the candidate list is built without
  a division by zero (as for every \<open>H\<close>: its only divisor is the constant 2) and is
  \<open>[0, 1, 32]\<close>, which contains 1 and 32. \<open>H\<close> is never replaced by 1: the sweep skips the
  candidate 0, and the ratio of the best K to \<open>H\<close> divides by \<open>H\<close> itself, a floating-point
  division by zero that yields an infinity. (For any dataset, and a finite time of the run
  with one worker.)
\<close>

theorem hardware_concurrency_zero:
  assumes "length data < 2 ^ 63" and "elapsed 1 < DBL_MAX"
  shows "k_values 0 = Inr [0, 1, 32]
    \<and> (\<exists>ks. k_values H = Inr ks)
    \<and> (\<exists>s. phase_c 0 data elapsed = Inr (s, PlusInfinity) \<and> (best_k s = 1 \<or> best_k s = 32))"
proof -
  define c where "c = std_count_if data"
  have pos: "\<forall>(k, t) \<in> set [(1 :: c_int, elapsed 1), (32, elapsed 32)]. 0 <s k"
    by (simp add: word_sless_alt)
  have "phase_c_loop data [(0, elapsed 0), (1, elapsed 1), (32, elapsed 32)] initial_sweep_state
      = phase_c_loop data [(1, elapsed 1), (32, elapsed 32)] initial_sweep_state"
    by simp
  also have "\<dots> = Inr (record_run 32 (elapsed 32) c (record_run 1 (elapsed 1) c initial_sweep_state))"
    unfolding phase_c_loop_positive [OF assms(1) pos] c_def by simp
  finally have loop: "phase_c_loop data (map (\<lambda>k. (k, elapsed k)) [0, 1, 32]) initial_sweep_state
      = Inr (record_run 32 (elapsed 32) c (record_run 1 (elapsed 1) c initial_sweep_state))"
    by simp
  define s where "s = record_run 32 (elapsed 32) c (record_run 1 (elapsed 1) c initial_sweep_state)"
  have best: "best_k s = 1 \<or> best_k s = 32"
    using assms(2) by (simp add: s_def record_run_def initial_sweep_state_def Let_def)
  then have "best_k_ratio (best_k s) 0 = PlusInfinity"
    by (auto simp: best_k_ratio_def word_sless_alt)
  then have "phase_c 0 data elapsed = Inr (s, PlusInfinity)"
    by (simp add: phase_c_def k_values_zero and_then_def loop [folded s_def] del: list.map)
  with best k_values_zero k_values_eq [of H] show ?thesis by simp
qed

text \<open>The dataset \<open>[2, \<dots>, 11]\<close>, every run taking one second.\<close>

theorem hardware_concurrency_zero_witness:
  "length [2, 3, 4, 5, 6, 7, 8, 9, 10, 11 :: c_int] < 2 ^ 63 \<and> (1 :: real) < DBL_MAX
    \<and> (\<exists>s. phase_c 0 [2, 3, 4, 5, 6, 7, 8, 9, 10, 11] (\<lambda>k. 1) = Inr (s, PlusInfinity))"
proof -
  have h: "length [2, 3, 4, 5, 6, 7, 8, 9, 10, 11 :: c_int] < 2 ^ 63" "(1 :: real) < DBL_MAX"
    by (simp_all add: DBL_MAX_def)
  from hardware_concurrency_zero [of "[2, 3, 4, 5, 6, 7, 8, 9, 10, 11]" "\<lambda>k. 1", OF h]
  have "\<exists>s. phase_c 0 [2, 3, 4, 5, 6, 7, 8, 9, 10, 11] (\<lambda>k. 1) = Inr (s, PlusInfinity)"
    by blast
  with h show ?thesis by (intro conjI)
qed

section \<open>The width of the stored counts\<close>

lemma phase_a_of_nat:
  "phase_a_nonlocal data = of_nat (length (filter is_even data))"
  by (simp add: phase_a_nonlocal_def std_count_if_eq unsigned_of_nat word_of_nat_eq_iff)

lemma phase_a_exact_below:
  assumes "length data < 2 ^ 31"
  shows "sint (phase_a_nonlocal data) = int (length (filter is_even data))"
proof -
  define m where "m = length (filter is_even data)"
  have "m \<le> length data" by (simp add: m_def)
  with assms have m: "m < 2 ^ 31" by linarith
  have "(2 :: nat) ^ 31 < 2 ^ 32" by simp
  with m have "m < 2 ^ 32" by linarith
  then have "unat (of_nat m :: c_int) = m" by (simp add: unat_of_nat)
  with m sint_small [of "of_nat m"] show ?thesis
    by (simp only: phase_a_of_nat m_def [symmetric])
qed

lemma all_even_count: "length (filter is_even (replicate n 2)) = n"
  by (simp add: is_even_def)

text \<open>
  Claim C9 says that every count is stored in a 64-bit integer, with no narrowing to a
  32-bit type. Phase A stores the baseline's count in \<^verbatim>\<open>int nonlocal\<close>: on the dataset
  \<open>[2, \<dots>, 11]\<close> the stored value has 32 bits, the low half of the 64 bits that phase B
  stores. Below \<open>2 ^ 31\<close> elements the narrowed value is still the count
  (\<open>phase_a_exact_below\<close>); for \<open>2 ^ 31\<close> even elements it is \<open>- 2 ^ 31\<close>.
\<close>

theorem phase_a_narrows_count:
  "size (phase_a_nonlocal [2, 3, 4, 5, 6, 7, 8, 9, 10, 11]) = 32
    \<and> size (phase_b_count_result [2, 3, 4, 5, 6, 7, 8, 9, 10, 11]) = 64
    \<and> phase_a_nonlocal [2, 3, 4, 5, 6, 7, 8, 9, 10, 11]
        = ucast (phase_b_count_result [2, 3, 4, 5, 6, 7, 8, 9, 10, 11])
    \<and> sint (phase_b_count_result (replicate (2 ^ 31) 2)) = 2 ^ 31
    \<and> sint (phase_a_nonlocal (replicate (2 ^ 31) 2)) = - (2 ^ 31)"
proof -
  have "sint (phase_b_count_result (replicate (2 ^ 31) 2)) = 2 ^ 31"
    by (simp add: phase_b_count_result_def std_count_if_eq all_even_count)
  moreover have "sint (phase_a_nonlocal (replicate (2 ^ 31) 2)) = - (2 ^ 31)"
    by (simp add: phase_a_of_nat all_even_count)
  ultimately show ?thesis
    by (simp add: word_size phase_a_nonlocal_def phase_b_count_result_def)
qed

end
